theory Spec2Isabelle
  imports Main "HOL-Library.Word"
begin

section \<open>HVSClib base code (src/vice/src/hvsc/base.c)\<close>

text \<open>
  A shallow embedding of the base library of HVSClib: the timestamp parser, the field-tag
  recogniser, the path utilities, the buffered text reader and the bulk file loader.

  Conventions of the embedding.
  \<^item> A C string is the list of its bytes before the terminating NUL; the terminator is the
    end of the list, so \<open>strlen\<close> is \<open>length\<close> and reading the byte at the end of
    the list yields NUL (\<open>byte_at_ptr\<close>).
  \<^item> A \<open>char *\<close> that walks through a string is the list of bytes it still points to:
    \<open>t++\<close> is \<open>tl\<close>, and the offset of the pointer in the string it came from is the
    difference of the two lengths (\<open>ptr_offset\<close>).
  \<^item> A pointer that may be \<open>NULL\<close> is an \<open>option\<close>.
  \<^item> \<open>long\<close> is a 64-bit two's-complement word (the LP64 targets of the emulator);
    \<open>sint\<close> reads the signed value. C leaves signed overflow undefined; the embedding
    takes the wrap-around of the machine, and whatever an overflowing run returns, it is
    a value of this type.
\<close>

subsection \<open>Error state\<close>

text \<open>
  Modelled from the spec: the enumeration of error codes is declared in hvsc.h, which is
  not among the sources. Its members follow the message table \<open>hvsc_err_messages\<close> of
  base.c ("OK", "I/O error", "file too large error", "libgcrypt error",
  "malformed timestamp", "object not found", "invalid data or operation") and the error
  taxonomy of the spec, in that order.
\<close>

datatype hvsc_err_t =
    HVSC_ERR_OK
  | HVSC_ERR_IO
  | HVSC_ERR_FILE_TOO_LARGE
  | HVSC_ERR_GCRYPT
  | HVSC_ERR_TIMESTAMP
  | HVSC_ERR_NOT_FOUND
  | HVSC_ERR_INVALID

subsection \<open>C strings\<close>

type_synonym long = "64 word"

definition byte_at_ptr :: "string \<Rightarrow> char" where
  "byte_at_ptr p = (case p of [] \<Rightarrow> CHR 0x00 | c # _ \<Rightarrow> c)"

definition ptr_offset :: "string \<Rightarrow> string \<Rightarrow> nat" where
  "ptr_offset s p = length s - length p"

text \<open>
  \<open>isdigit\<close> in the C locale, and a \<open>char\<close> promoted for arithmetic in \<open>long\<close>. The
  parser promotes digits only, whose codes are positive whether \<open>char\<close> is signed or not.
\<close>

definition isdigit :: "char \<Rightarrow> bool" where
  "isdigit c = ((48::nat) \<le> of_char c \<and> (of_char c :: nat) \<le> 57)"

definition long_of_char :: "char \<Rightarrow> long" where
  "long_of_char c = word_of_nat (of_char c)"

subsection \<open>Timestamp parser: \<open>hvsc_parse_simple_timestamp\<close>\<close>

text \<open>
  The three digit loops of the function. Each returns the advanced pointer with the
  accumulated value. The seconds loop returns \<open>None\<close> where the source leaves the
  function from inside the loop (\<open>s > 59\<close>).
\<close>

fun minutes_loop :: "string \<Rightarrow> long \<Rightarrow> string \<times> long" where
  "minutes_loop [] m = ([], m)"
| "minutes_loop (c # cs) m =
     (if isdigit c
      then minutes_loop cs (m * 10 + long_of_char c - long_of_char CHR ''0'')
      else (c # cs, m))"

fun seconds_loop :: "string \<Rightarrow> long \<Rightarrow> (string \<times> long) option" where
  "seconds_loop [] s = Some ([], s)"
| "seconds_loop (c # cs) s =
     (if isdigit c
      then (let s' = s * 10 + long_of_char c - long_of_char CHR ''0''
            in if 59 <s s' then None else seconds_loop cs s')
      else Some (c # cs, s))"

fun fraction_loop :: "string \<Rightarrow> long \<Rightarrow> int \<Rightarrow> string \<times> long \<times> int" where
  "fraction_loop [] f fd = ([], f, fd)"
| "fraction_loop (c # cs) f fd =
     (if isdigit c \<and> fd < 3
      then fraction_loop cs (f * 10 + long_of_char c - long_of_char CHR ''0'') (fd + 1)
      else (c # cs, f, fd))"

text \<open>\<open>while (fd++ < 3) { f *= 10; }\<close>\<close>

function pad_loop :: "long \<Rightarrow> int \<Rightarrow> long" where
  "pad_loop f fd = (if fd < 3 then pad_loop (f * 10) (fd + 1) else f)"
  by pat_completeness auto
termination
  by (relation "measure (\<lambda>(f, fd). nat (3 - fd))") auto

text \<open>
  What a call leaves behind: the returned \<open>long\<close>, the global \<open>hvsc_errno\<close> and the
  caller's variable \<open>*endptr\<close>. The call takes the values the last two had before.
\<close>

record timestamp_result =
  retval :: long
  hvsc_errno :: hvsc_err_t
  endptr :: "string option"

definition hvsc_parse_simple_timestamp ::
  "string \<Rightarrow> hvsc_err_t \<Rightarrow> string option \<Rightarrow> timestamp_result" where
  "hvsc_parse_simple_timestamp t errno0 endptr0 =
     (case minutes_loop t 0 of (t1, m) \<Rightarrow>
        if byte_at_ptr t1 \<noteq> CHR '':''
        then \<lparr>retval = - 1, hvsc_errno = HVSC_ERR_TIMESTAMP, endptr = Some t1\<rparr>
        else
          (case seconds_loop (tl t1) 0 of
             None \<Rightarrow> \<lparr>retval = - 1, hvsc_errno = HVSC_ERR_TIMESTAMP, endptr = endptr0\<rparr>
           | Some (t2, s) \<Rightarrow>
               if byte_at_ptr t2 = CHR ''.''
               then
                 (case fraction_loop (tl t2) 0 0 of (t3, f, fd) \<Rightarrow>
                    if fd = 0
                    then \<lparr>retval = - 1, hvsc_errno = HVSC_ERR_TIMESTAMP, endptr = endptr0\<rparr>
                    else \<lparr>retval = (m * 60 + s) * 1000 + pad_loop f fd,
                          hvsc_errno = errno0, endptr = Some t3\<rparr>)
               else \<lparr>retval = (m * 60 + s) * 1000 + 0,
                     hvsc_errno = errno0, endptr = Some t2\<rparr>))"

declare pad_loop.simps [simp del]

text \<open>
  The grammar of the spec, for stating what the parser computes: the decimal value of a
  digit run, the text \<open>M:SS\<close> or \<open>M:SS.fff\<close> built from three digit runs (an empty
  third run stands for no fraction), and the milliseconds the spec assigns to it.
\<close>

fun digits_from :: "nat \<Rightarrow> string \<Rightarrow> nat" where
  "digits_from a [] = a"
| "digits_from a (c # cs) = digits_from (a * 10 + (of_char c - 48)) cs"

definition digits_value :: "string \<Rightarrow> nat" where
  "digits_value ds = digits_from 0 ds"

definition timestamp_text :: "string \<Rightarrow> string \<Rightarrow> string \<Rightarrow> string" where
  "timestamp_text ms ss fs = ms @ CHR '':'' # ss @ (if fs = [] then [] else CHR ''.'' # fs)"

definition timestamp_ms :: "string \<Rightarrow> string \<Rightarrow> string \<Rightarrow> nat" where
  "timestamp_ms ms ss fs =
     (digits_value ms * 60 + digits_value ss) * 1000 + digits_value fs * 10 ^ (3 - length fs)"

subsection \<open>Field-tag recogniser: \<open>hvsc_get_field_type\<close>\<close>

text \<open>
  \<open>strncmp\<close> of the C library: at most \<open>n\<close> bytes are compared, as unsigned bytes, and
  the comparison stops after a NUL. The result is the difference at the first mismatch.
\<close>

fun strncmp :: "string \<Rightarrow> string \<Rightarrow> nat \<Rightarrow> int" where
  "strncmp s1 s2 0 = 0"
| "strncmp s1 s2 (Suc n) =
     (if byte_at_ptr s1 \<noteq> byte_at_ptr s2
      then int (of_char (byte_at_ptr s1)) - int (of_char (byte_at_ptr s2))
      else if byte_at_ptr s1 = CHR 0x00 then 0
      else strncmp (tl s1) (tl s2) n)"

text \<open>
  The array \<open>field_identifiers\<close>: the list holds its six literals in order, and the end of
  the list is the terminating \<open>NULL\<close> entry. A field type is the index of its literal.
\<close>

definition field_identifiers :: "string list" where
  "field_identifiers =
     ['' ARTIST:'', '' AUTHOR:'', ''    BUG:'', ''COMMENT:'', ''   NAME:'', ''  TITLE:'']"

definition HVSC_FIELD_INVALID :: int where
  "HVSC_FIELD_INVALID = - 1"

fun field_type_loop :: "string \<Rightarrow> string list \<Rightarrow> int \<Rightarrow> int" where
  "field_type_loop s [] i = HVSC_FIELD_INVALID"
| "field_type_loop s (fid # ids) i =
     (if strncmp s fid 8 = 0 then i else field_type_loop s ids (i + 1))"

definition hvsc_get_field_type :: "string \<Rightarrow> int" where
  "hvsc_get_field_type s = field_type_loop s field_identifiers 0"

subsection \<open>Path utilities\<close>

text \<open>
  \<open>memcmp\<close> of the C library on the first \<open>n\<close> bytes of two strings; the callers below
  stay within both strings.
\<close>

fun memcmp :: "string \<Rightarrow> string \<Rightarrow> nat \<Rightarrow> int" where
  "memcmp s1 s2 0 = 0"
| "memcmp s1 s2 (Suc n) =
     (if byte_at_ptr s1 \<noteq> byte_at_ptr s2
      then int (of_char (byte_at_ptr s1)) - int (of_char (byte_at_ptr s2))
      else memcmp (tl s1) (tl s2) n)"

definition hvsc_strdup :: "string \<Rightarrow> string" where
  "hvsc_strdup s = s"

text \<open>
  The build configuration the path code depends on: whether \<open>WINDOWS_COMPILE\<close> is
  defined, and the three file names of hvsc_defs.h, which is not among the sources.
\<close>

record build_config =
  WINDOWS_COMPILE :: bool
  HVSC_SLDB_FILE :: string
  HVSC_STIL_FILE :: string
  HVSC_BUGS_FILE :: string

definition dir_separator :: "build_config \<Rightarrow> char" where
  "dir_separator cfg = (if WINDOWS_COMPILE cfg then CHR 0x5C else CHR ''/'')"

text \<open>
  \<open>hvsc_paths_join\<close>, the branch of the function that is in the sources (the
  \<open>HVSC_STANDALONE\<close> one; the other hands both arguments to \<open>util_join_paths\<close>).
\<close>

definition hvsc_paths_join ::
  "build_config \<Rightarrow> string option \<Rightarrow> string option \<Rightarrow> string option" where
  "hvsc_paths_join cfg p1 p2 =
     (case p1 of
        None \<Rightarrow> None
      | Some a \<Rightarrow>
          (case p2 of
             None \<Rightarrow> None
           | Some b \<Rightarrow> Some (a @ dir_separator cfg # b)))"

record hvsc_paths =
  hvsc_root_path :: "string option"
  hvsc_sldb_path :: "string option"
  hvsc_stil_path :: "string option"
  hvsc_bugs_path :: "string option"

definition hvsc_set_paths :: "build_config \<Rightarrow> string \<Rightarrow> hvsc_paths" where
  "hvsc_set_paths cfg pth =
     (let root = Some (hvsc_strdup pth) in
      \<lparr>hvsc_root_path = root,
       hvsc_sldb_path = hvsc_paths_join cfg root (Some (HVSC_SLDB_FILE cfg)),
       hvsc_stil_path = hvsc_paths_join cfg root (Some (HVSC_STIL_FILE cfg)),
       hvsc_bugs_path = hvsc_paths_join cfg root (Some (HVSC_BUGS_FILE cfg))\<rparr>)"

definition hvsc_path_strip_root :: "hvsc_paths \<Rightarrow> string \<Rightarrow> string" where
  "hvsc_path_strip_root g pth =
     (let plen = length pth;
          rlen = (case hvsc_root_path g of None \<Rightarrow> 0 | Some r \<Rightarrow> length r)
      in if rlen = 0 then hvsc_strdup pth
         else if plen \<le> rlen then hvsc_strdup pth
         else (case hvsc_root_path g of
                 None \<Rightarrow> hvsc_strdup pth
               | Some r \<Rightarrow>
                   if memcmp pth r rlen = 0 then drop rlen pth else hvsc_strdup pth))"

definition hvsc_path_is_hvsc :: "hvsc_paths \<Rightarrow> string \<Rightarrow> bool" where
  "hvsc_path_is_hvsc g pth =
     (case hvsc_root_path g of
        None \<Rightarrow> False
      | Some r \<Rightarrow>
          (let plen = length pth; rlen = length r
           in if rlen \<ge> plen then False else memcmp pth r rlen = 0))"

text \<open>
  A build for a POSIX host, for the concrete examples: the separator is the slash; the
  three file names play no part in the examples.
\<close>

definition posix_build :: build_config where
  "posix_build =
     \<lparr>WINDOWS_COMPILE = False, HVSC_SLDB_FILE = ''DOCUMENTS/Songlengths.md5'',
      HVSC_STIL_FILE = ''DOCUMENTS/STIL.txt'', HVSC_BUGS_FILE = ''DOCUMENTS/BUGlist.txt''\<rparr>"

subsection \<open>Streams and heap blocks\<close>

text \<open>
  The part of stdio the library uses. An open stream is the bytes it has not delivered
  yet, whether the device fails once they are delivered (instead of reaching the end of
  the file), and its end-of-file and error indicators. \<open>fgetc\<close> returns \<open>None\<close> for
  \<open>EOF\<close>; \<open>fread\<close> returns the bytes it stored, whose number is its result. A file
  system gives the stream \<open>fopen\<close> opens for a path, or \<open>None\<close> when it cannot.
\<close>

record FILE =
  pending :: string
  device_fails :: bool
  eof_indicator :: bool
  error_indicator :: bool

type_synonym filesystem = "string \<Rightarrow> FILE option"

definition fopen :: "filesystem \<Rightarrow> string \<Rightarrow> FILE option" where
  "fopen fs pth = fs pth"

definition fgetc :: "FILE \<Rightarrow> char option \<times> FILE" where
  "fgetc f =
     (case pending f of
        c # cs \<Rightarrow> (Some c, f\<lparr>pending := cs\<rparr>)
      | [] \<Rightarrow>
          if device_fails f then (None, f\<lparr>error_indicator := True\<rparr>)
          else (None, f\<lparr>eof_indicator := True\<rparr>))"

definition fread :: "nat \<Rightarrow> FILE \<Rightarrow> string \<times> FILE" where
  "fread n f =
     (let got = take n (pending f); f' = f\<lparr>pending := drop n (pending f)\<rparr>
      in if length got < n
         then (got, if device_fails f then f'\<lparr>error_indicator := True\<rparr>
                    else f'\<lparr>eof_indicator := True\<rparr>)
         else (got, f'))"

definition feof :: "FILE \<Rightarrow> bool" where
  "feof f = eof_indicator f"

definition new_stream :: "string \<Rightarrow> bool \<Rightarrow> FILE" where
  "new_stream bytes fails =
     \<lparr>pending = bytes, device_fails = fails, eof_indicator = False, error_indicator = False\<rparr>"

text \<open>A file system with one readable file.\<close>

definition single_file :: "string \<Rightarrow> string \<Rightarrow> filesystem" where
  "single_file name bytes = (\<lambda>pth. if pth = name then Some (new_stream bytes False) else None)"

text \<open>
  A heap block is the list of its bytes, \<open>None\<close> for a byte that was never written
  (\<open>malloc\<close> and the grown part of a \<open>realloc\<close> are uninitialised). The allocator of the
  library aborts the process when memory runs out, so an allocation that returns has
  succeeded. \<open>size_t\<close> values are natural numbers: they stay below the size of an
  allocated block. A store outside the block has no defined result (\<open>None\<close>).
\<close>

type_synonym block = "char option list"

definition hvsc_malloc :: "nat \<Rightarrow> block" where
  "hvsc_malloc n = replicate n None"

definition hvsc_realloc :: "block \<Rightarrow> nat \<Rightarrow> block" where
  "hvsc_realloc b n = take n b @ replicate (n - length b) None"

definition store_byte :: "block \<Rightarrow> nat \<Rightarrow> char \<Rightarrow> block option" where
  "store_byte b i c = (if i < length b then Some (b[i := Some c]) else None)"

definition store_bytes :: "block \<Rightarrow> nat \<Rightarrow> string \<Rightarrow> block option" where
  "store_bytes b off bs =
     (if off + length bs \<le> length b
      then Some (take off b @ map Some bs @ drop (off + length bs) b)
      else None)"

text \<open>The C string that starts a block: its bytes up to the first NUL, if there is one
  before the block ends or an uninitialised byte is met.\<close>

fun c_string :: "block \<Rightarrow> string option" where
  "c_string [] = None"
| "c_string (None # b) = None"
| "c_string (Some c # b) =
     (if c = CHR 0x00 then Some [] else map_option ((#) c) (c_string b))"

definition READFILE_BLOCK_SIZE :: nat where
  "READFILE_BLOCK_SIZE = 65536"

definition READFILE_LINE_SIZE :: nat where
  "READFILE_LINE_SIZE = 1024"

subsection \<open>Buffered text reader\<close>

record hvsc_text_file_t =
  fp :: "FILE option"
  path :: "string option"
  lineno :: long
  linelen :: nat
  buffer :: "block option"
  prevbuf :: "block option"
  buflen :: nat

definition hvsc_text_file_init_handle :: "hvsc_text_file_t \<Rightarrow> hvsc_text_file_t" where
  "hvsc_text_file_init_handle h =
     h\<lparr>fp := None, path := None, lineno := 0, linelen := 0,
       buffer := None, prevbuf := None, buflen := 0\<rparr>"

text \<open>
  \<open>hvsc_text_file_open\<close> returns its \<open>bool\<close> with the handle and the error state it
  leaves. \<open>memset (buffer, 0, sizeof *buffer)\<close> clears one byte.
\<close>

definition hvsc_text_file_open ::
  "filesystem \<Rightarrow> string \<Rightarrow> hvsc_text_file_t \<Rightarrow> hvsc_err_t
   \<Rightarrow> bool \<times> hvsc_text_file_t \<times> hvsc_err_t" where
  "hvsc_text_file_open fs pth h0 e =
     (let h = hvsc_text_file_init_handle h0
      in case fopen fs pth of
           None \<Rightarrow> (False, h\<lparr>fp := None\<rparr>, HVSC_ERR_IO)
         | Some f \<Rightarrow>
             (True,
              h\<lparr>fp := Some f,
                path := Some (hvsc_strdup pth),
                lineno := 0,
                buffer := Some ((hvsc_malloc READFILE_LINE_SIZE)[0 := Some (CHR 0x00)]),
                prevbuf := Some ((hvsc_malloc READFILE_LINE_SIZE)[0 := Some (CHR 0x00)]),
                buflen := READFILE_LINE_SIZE\<rparr>,
              e))"

definition hvsc_text_file_close :: "hvsc_text_file_t \<Rightarrow> hvsc_text_file_t" where
  "hvsc_text_file_close h =
     (let h1 = (if path h \<noteq> None then h\<lparr>path := None\<rparr> else h);
          h2 = (if buffer h1 \<noteq> None then h1\<lparr>buffer := None\<rparr> else h1);
          h3 = (if prevbuf h2 \<noteq> None then h2\<lparr>prevbuf := None\<rparr> else h2)
      in if fp h3 \<noteq> None then h3\<lparr>fp := None\<rparr> else h3)"

text \<open>
  The loop of \<open>hvsc_text_file_read\<close>, with the handle and the index \<open>i\<close> as its state.
  It returns the pointer the function returns (\<open>None\<close> for \<open>NULL\<close>, else the block of
  \<open>handle->buffer\<close>) with the handle and the error state. The result is \<open>None\<close> where
  the source has no defined behaviour: a null stream or buffer, a store outside the
  buffer. \<open>i == handle->buflen - 1\<close> is computed in \<open>size_t\<close>, where it is the same as
  \<open>i + 1 == handle->buflen\<close>.
\<close>

function text_file_read_loop ::
  "hvsc_text_file_t \<Rightarrow> nat \<Rightarrow> hvsc_err_t
   \<Rightarrow> (block option \<times> hvsc_text_file_t \<times> hvsc_err_t) option" where
  "text_file_read_loop h i e =
     (case fp h of
        None \<Rightarrow> None
      | Some f \<Rightarrow>
     (case buffer h of
        None \<Rightarrow> None
      | Some buf0 \<Rightarrow>
     (case prevbuf h of
        None \<Rightarrow> None
      | Some prev0 \<Rightarrow>
          (let resize = (i + 1 = buflen h);
               len = (if resize then buflen h * 2 else buflen h);
               buf = (if resize then hvsc_realloc buf0 len else buf0);
               prev = (if resize then hvsc_realloc prev0 len else prev0);
               h1 = h\<lparr>buflen := len, buffer := Some buf, prevbuf := Some prev\<rparr>
           in case fgetc f of
                (None, f') \<Rightarrow>
                  if feof f'
                  then (case store_byte buf i (CHR 0x00) of
                          None \<Rightarrow> None
                        | Some b \<Rightarrow>
                            Some (if i = 0 then None else Some b,
                                  h1\<lparr>fp := Some f', buffer := Some b\<rparr>, e))
                  else Some (None, h1\<lparr>fp := Some f'\<rparr>, HVSC_ERR_IO)
              | (Some ch, f') \<Rightarrow>
                  if ch = CHR 0x0A
                  then (case store_byte buf i (CHR 0x00) of
                          None \<Rightarrow> None
                        | Some b \<Rightarrow>
                            (let strip = (i > 0 \<and> b ! (i - 1) = Some (CHR 0x0D));
                                 i' = (if strip then i - 1 else i);
                                 b' = (if strip then b[i' := Some (CHR 0x00)] else b)
                             in Some (Some b',
                                      h1\<lparr>fp := Some f', buffer := Some b',
                                         lineno := lineno h + 1, linelen := i'\<rparr>, e)))
                  else (case store_byte buf i ch of
                          None \<Rightarrow> None
                        | Some b \<Rightarrow>
                            text_file_read_loop (h1\<lparr>fp := Some f', buffer := Some b\<rparr>)
                              (i + 1) e)))))"
  by pat_completeness auto
termination
  apply (relation "measure (\<lambda>(h, i, e). case fp h of None \<Rightarrow> 0 | Some f \<Rightarrow> length (pending f))")
   apply simp
  apply (auto simp: fgetc_def split: list.splits if_splits)
  done

text \<open>
  \<open>memcpy (prevbuf, buffer, buflen)\<close> needs \<open>buflen\<close> bytes in both blocks; then the loop
  runs from \<open>i = 0\<close>.
\<close>

definition hvsc_text_file_read ::
  "hvsc_text_file_t \<Rightarrow> hvsc_err_t
   \<Rightarrow> (block option \<times> hvsc_text_file_t \<times> hvsc_err_t) option" where
  "hvsc_text_file_read h e =
     (case buffer h of
        None \<Rightarrow> None
      | Some buf \<Rightarrow>
     (case prevbuf h of
        None \<Rightarrow> None
      | Some prev \<Rightarrow>
          if buflen h \<le> length buf \<and> buflen h \<le> length prev
          then text_file_read_loop
                 (h\<lparr>prevbuf := Some (take (buflen h) buf @ drop (buflen h) prev)\<rparr>) 0 e
          else None))"

text \<open>
  A caller that reads \<open>n\<close> times and notes, for each call, the line returned (\<open>None\<close> for
  \<open>NULL\<close>), the line number and the error state after the call. The notes end early
  where a call has no defined result or returns a block that holds no string.
\<close>

fun text_file_reads ::
  "nat \<Rightarrow> hvsc_text_file_t \<Rightarrow> hvsc_err_t \<Rightarrow> (string option \<times> long \<times> hvsc_err_t) list" where
  "text_file_reads 0 h e = []"
| "text_file_reads (Suc n) h e =
     (case hvsc_text_file_read h e of
        None \<Rightarrow> []
      | Some (None, h', e') \<Rightarrow> (None, lineno h', e') # text_file_reads n h' e'
      | Some (Some b, h', e') \<Rightarrow>
          (case c_string b of
             None \<Rightarrow> []
           | Some line \<Rightarrow> (Some line, lineno h', e') # text_file_reads n h' e'))"

text \<open>
  The invariant of a handle: both line buffers are null, or both are blocks of
  \<open>buflen\<close> bytes.
\<close>

definition equal_capacity :: "hvsc_text_file_t \<Rightarrow> bool" where
  "equal_capacity h =
     (case buffer h of
        None \<Rightarrow> prevbuf h = None
      | Some buf \<Rightarrow>
          (case prevbuf h of
             None \<Rightarrow> False
           | Some prev \<Rightarrow> length buf = buflen h \<and> length prev = buflen h))"

subsection \<open>Bulk file loader\<close>

text \<open>
  The heap the loader allocates from: the list of all blocks allocated so far, a block's
  address being its index, and a released block being \<open>None\<close>. \<open>hvsc_malloc\<close> adds a
  block, \<open>hvsc_realloc\<close> releases the block it is given and adds the resized one (the
  block may move), \<open>hvsc_free\<close> releases a block. Reallocating, freeing or storing
  through an address that holds no live block has no defined result (\<open>None\<close>).
\<close>

type_synonym heap = "block option list"

definition heap_block :: "heap \<Rightarrow> nat \<Rightarrow> block option" where
  "heap_block hp ptr = (if ptr < length hp then hp ! ptr else None)"

definition live_blocks :: "heap \<Rightarrow> block list" where
  "live_blocks hp = map the (filter (\<lambda>b. b \<noteq> None) hp)"

definition hvsc_malloc_heap :: "heap \<Rightarrow> nat \<Rightarrow> nat \<times> heap" where
  "hvsc_malloc_heap hp n = (length hp, hp @ [Some (hvsc_malloc n)])"

definition hvsc_realloc_heap :: "heap \<Rightarrow> nat \<Rightarrow> nat \<Rightarrow> (nat \<times> heap) option" where
  "hvsc_realloc_heap hp ptr n =
     (case heap_block hp ptr of
        None \<Rightarrow> None
      | Some b \<Rightarrow> Some (length hp, hp[ptr := None] @ [Some (hvsc_realloc b n)]))"

definition hvsc_free_heap :: "heap \<Rightarrow> nat \<Rightarrow> heap option" where
  "hvsc_free_heap hp ptr =
     (case heap_block hp ptr of
        None \<Rightarrow> None
      | Some b \<Rightarrow> Some (hp[ptr := None]))"

definition heap_store_bytes :: "heap \<Rightarrow> nat \<Rightarrow> nat \<Rightarrow> string \<Rightarrow> heap option" where
  "heap_store_bytes hp ptr off bs =
     (case heap_block hp ptr of
        None \<Rightarrow> None
      | Some b \<Rightarrow>
          (case store_bytes b off bs of
             None \<Rightarrow> None
           | Some b' \<Rightarrow> Some (hp[ptr := Some b'])))"

text \<open>
  The loop of \<open>hvsc_read_file\<close>, with \<open>data\<close> an address in the heap. A call leaves the
  returned \<open>long\<close>, the caller's \<open>*dest\<close>, the error state and the heap.
\<close>

function read_file_loop ::
  "FILE \<Rightarrow> heap \<Rightarrow> nat \<Rightarrow> nat \<Rightarrow> nat \<Rightarrow> hvsc_err_t
   \<Rightarrow> (long \<times> nat option \<times> hvsc_err_t \<times> heap) option" where
  "read_file_loop fd hp0 data0 offset size0 e =
     (let resize = (offset = size0);
          size1 = (if resize then size0 * 2 else size0)
      in case (if resize then hvsc_realloc_heap hp0 data0 size1 else Some (data0, hp0)) of
           None \<Rightarrow> None
         | Some (data, hp1) \<Rightarrow>
             (case fread READFILE_BLOCK_SIZE fd of
                (got, fd') \<Rightarrow>
                  (case heap_store_bytes hp1 data offset got of
                     None \<Rightarrow> None
                   | Some hp2 \<Rightarrow>
                       if length got < READFILE_BLOCK_SIZE
                       then (if feof fd'
                             then Some (word_of_nat (offset + length got), Some data, e, hp2)
                             else (case hvsc_free_heap hp2 data of
                                     None \<Rightarrow> None
                                   | Some hp3 \<Rightarrow> Some (- 1, None, HVSC_ERR_IO, hp3)))
                       else read_file_loop fd' hp2 data (offset + READFILE_BLOCK_SIZE)
                              size1 e)))"
  by pat_completeness auto
termination
  apply (relation "measure (\<lambda>(fd, hp0, data0, offset, size0, e). length (pending fd))")
   apply simp
  apply (auto simp: fread_def Let_def READFILE_BLOCK_SIZE_def split: if_splits)
  done

definition hvsc_read_file ::
  "filesystem \<Rightarrow> string \<Rightarrow> nat option \<Rightarrow> hvsc_err_t \<Rightarrow> heap
   \<Rightarrow> (long \<times> nat option \<times> hvsc_err_t \<times> heap) option" where
  "hvsc_read_file fs pth dest0 e hp =
     (case fopen fs pth of
        None \<Rightarrow> Some (- 1, dest0, HVSC_ERR_IO, hp)
      | Some fd \<Rightarrow>
          (case hvsc_malloc_heap hp READFILE_BLOCK_SIZE of
             (data, hp1) \<Rightarrow> read_file_loop fd hp1 data 0 READFILE_BLOCK_SIZE e))"

text \<open>
  How often the capacity has doubled once \<open>n\<close> full chunks are read: at the chunk
  counts 1, 2, 4, 8, ... up to \<open>n\<close>.
\<close>

fun doublings :: "nat \<Rightarrow> nat" where
  "doublings n = (if n = 0 then 0 else Suc (doublings (n div 2)))"

declare doublings.simps [simp del]

declare text_file_read_loop.simps [simp del]
declare read_file_loop.simps [simp del]

text \<open>A handle before it is opened, and the two files of the examples.\<close>

definition fresh_handle :: hvsc_text_file_t where
  "fresh_handle =
     \<lparr>fp = None, path = None, lineno = 0, linelen = 0,
      buffer = None, prevbuf = None, buflen = 0\<rparr>"

definition two_lines_crlf :: string where
  "two_lines_crlf =
     ''line1'' @ [CHR 0x0D, CHR 0x0A] @ ''line2'' @ [CHR 0x0A]"

text \<open>A handle that \<open>hvsc_text_file_read\<close> can be called on: open, with both buffers.\<close>

definition readable_handle :: "hvsc_text_file_t \<Rightarrow> bool" where
  "readable_handle h =
     (fp h \<noteq> None \<and> buffer h \<noteq> None \<and> 0 < buflen h \<and> equal_capacity h)"

section \<open>Timestamp parser: proofs\<close>

lemma sint_long_of_nat:
  assumes "n < 2 ^ 63"
  shows "sint (word_of_nat n :: long) = int n"
proof -
  have "sint (word_of_int (int n) :: long) = signed_take_bit (LENGTH(64) - 1) (int n)"
    by (rule sint_sbintrunc')
  also have "\<dots> = signed_take_bit 63 (int n)" by simp
  also have "\<dots> = int n"
  proof (rule signed_take_bit_int_eq_self)
    show "- (2 ^ 63) \<le> int n" by simp
    from assms have "int n < int (2 ^ 63)" by (simp only: of_nat_less_iff)
    then show "int n < 2 ^ 63" by simp
  qed
  finally show ?thesis by simp
qed

lemma digit_step:
  "isdigit c \<Longrightarrow>
   word_of_nat a * 10 + long_of_char c - long_of_char CHR ''0'' =
   (word_of_nat (a * 10 + (of_char c - 48)) :: long)"
  by (simp add: isdigit_def long_of_char_def)

lemma digit_le_9: "isdigit c \<Longrightarrow> (of_char c :: nat) - 48 \<le> 9"
  unfolding isdigit_def by arith

lemma digits_from_mono: "a \<le> digits_from a ds"
proof (induction ds arbitrary: a)
  case Nil
  show ?case by simp
next
  case (Cons c ds)
  have "a \<le> a * 10 + (of_char c - 48)" by simp
  also have "\<dots> \<le> digits_from (a * 10 + (of_char c - 48)) ds" by (rule Cons.IH)
  finally show ?case by simp
qed

lemma minutes_loop_stop:
  "\<not> isdigit (byte_at_ptr rest) \<Longrightarrow> minutes_loop rest m = (rest, m)"
  by (cases rest) (simp_all add: byte_at_ptr_def)

lemma minutes_loop_digits:
  "list_all isdigit ds \<Longrightarrow> \<not> isdigit (byte_at_ptr rest) \<Longrightarrow>
   minutes_loop (ds @ rest) (word_of_nat a) = (rest, word_of_nat (digits_from a ds))"
proof (induction ds arbitrary: a)
  case Nil
  then show ?case by (simp add: minutes_loop_stop)
next
  case (Cons c ds)
  then show ?case by (simp add: digit_step del: of_nat_add of_nat_mult)
qed

lemma seconds_loop_stop:
  "\<not> isdigit (byte_at_ptr rest) \<Longrightarrow> seconds_loop rest s = Some (rest, s)"
  by (cases rest) (simp_all add: byte_at_ptr_def)

lemma sless_59: "n < 2 ^ 63 \<Longrightarrow> (59 <s (word_of_nat n :: long)) = (59 < n)"
  by (simp add: word_sless_alt sint_long_of_nat)

lemma seconds_loop_digits:
  "list_all isdigit ds \<Longrightarrow> \<not> isdigit (byte_at_ptr rest) \<Longrightarrow> digits_from a ds \<le> 59 \<Longrightarrow>
   seconds_loop (ds @ rest) (word_of_nat a) = Some (rest, word_of_nat (digits_from a ds))"
proof (induction ds arbitrary: a)
  case Nil
  then show ?case by (simp add: seconds_loop_stop)
next
  case (Cons c ds)
  let ?a' = "a * 10 + (of_char c - 48)"
  have "?a' \<le> digits_from ?a' ds" by (rule digits_from_mono)
  with Cons.prems have le: "?a' \<le> 59" by simp
  then have "\<not> 59 <s (word_of_nat ?a' :: long)"
    by (simp add: sless_59 del: of_nat_add of_nat_mult)
  with Cons show ?case by (simp add: digit_step Let_def del: of_nat_add of_nat_mult)
qed

lemma seconds_loop_over:
  "list_all isdigit ds \<Longrightarrow> a \<le> 59 \<Longrightarrow> 60 \<le> digits_from a ds \<Longrightarrow>
   seconds_loop (ds @ rest) (word_of_nat a) = None"
proof (induction ds arbitrary: a)
  case Nil
  then show ?case by simp
next
  case (Cons c ds)
  let ?a' = "a * 10 + (of_char c - 48)"
  from Cons.prems have dig: "isdigit c" by simp
  from Cons.prems digit_le_9 [OF dig] have "?a' < 2 ^ 63" by simp
  then have cmp: "(59 <s (word_of_nat ?a' :: long)) = (59 < ?a')" by (rule sless_59)
  show ?case
  proof (cases "59 < ?a'")
    case True
    with cmp dig show ?thesis by (simp add: digit_step Let_def del: of_nat_add of_nat_mult)
  next
    case False
    then have "?a' \<le> 59" by simp
    moreover from Cons.prems have "60 \<le> digits_from ?a' ds" by simp
    moreover from Cons.prems have "list_all isdigit ds" by simp
    ultimately have "seconds_loop (ds @ rest) (word_of_nat ?a') = None"
      by (rule Cons.IH [rotated])
    with cmp dig False show ?thesis
      by (simp add: digit_step Let_def del: of_nat_add of_nat_mult)
  qed
qed

lemma fraction_loop_digits:
  "list_all isdigit fs \<Longrightarrow> 0 \<le> fd \<Longrightarrow> fd + int (length fs) \<le> 3 \<Longrightarrow>
   fraction_loop fs (word_of_nat a) fd =
   ([], word_of_nat (digits_from a fs), fd + int (length fs))"
proof (induction fs arbitrary: a fd)
  case Nil
  then show ?case by simp
next
  case (Cons c fs)
  from Cons.prems
  have "list_all isdigit fs" "0 \<le> fd + 1" "fd + 1 + int (length fs) \<le> 3" by simp_all
  then have "fraction_loop fs (word_of_nat (a * 10 + (of_char c - 48))) (fd + 1) =
      ([], word_of_nat (digits_from (a * 10 + (of_char c - 48)) fs), fd + 1 + int (length fs))"
    by (rule Cons.IH)
  moreover from Cons.prems have "isdigit c" "fd < 3" by simp_all
  ultimately show ?case by (simp add: digit_step del: of_nat_add of_nat_mult)
qed

lemma pad_loop_3: "pad_loop f 3 = f"
  by (simp add: pad_loop.simps)

lemma pad_loop_2: "pad_loop f 2 = f * 10"
  by (simp add: pad_loop.simps)

lemma pad_loop_1: "pad_loop f 1 = f * 100"
  by (simp add: pad_loop.simps)

lemma pad_loop_pow:
  assumes "1 \<le> n" "n \<le> 3"
  shows "pad_loop (word_of_nat a) (int n) = word_of_nat (a * 10 ^ (3 - n))"
proof -
  from assms consider "n = 1" | "n = 2" | "n = 3" by arith
  then show ?thesis
    by cases (simp_all add: pad_loop_1 pad_loop_2 pad_loop_3)
qed

lemma parse_well_formed:
  assumes ms: "list_all isdigit ms" and ss: "list_all isdigit ss"
    and s59: "digits_value ss \<le> 59"
    and fs: "list_all isdigit fs" and len: "length fs \<le> 3"
  shows "hvsc_parse_simple_timestamp (timestamp_text ms ss fs) e p =
     \<lparr>retval = word_of_nat (timestamp_ms ms ss fs), hvsc_errno = e, endptr = Some []\<rparr>"
proof -
  let ?tail = "if fs = [] then [] else CHR ''.'' # fs"
  have colon: "\<not> isdigit (byte_at_ptr (CHR '':'' # ss @ ?tail))"
    by (simp add: byte_at_ptr_def isdigit_def)
  have m: "minutes_loop (timestamp_text ms ss fs) 0 =
      (CHR '':'' # ss @ ?tail, word_of_nat (digits_value ms))"
    using minutes_loop_digits [OF ms colon, of 0]
    by (simp add: timestamp_text_def digits_value_def)
  have tail: "\<not> isdigit (byte_at_ptr ?tail)"
    by (simp add: byte_at_ptr_def isdigit_def)
  from s59 have "digits_from 0 ss \<le> 59" by (simp add: digits_value_def)
  from seconds_loop_digits [OF ss tail this]
  have s: "seconds_loop (ss @ ?tail) 0 = Some (?tail, word_of_nat (digits_value ss))"
    by (simp add: digits_value_def)
  show ?thesis
  proof (cases "fs = []")
    case True
    with m s show ?thesis
      by (simp add: hvsc_parse_simple_timestamp_def byte_at_ptr_def timestamp_ms_def
          digits_value_def)
  next
    case False
    then have pos: "1 \<le> length fs" by (cases fs) simp_all
    from fraction_loop_digits [OF fs, of 0 0] len
    have f: "fraction_loop fs 0 0 = ([], word_of_nat (digits_value fs), int (length fs))"
      by (simp add: digits_value_def)
    from False have nz: "int (length fs) \<noteq> 0" by simp
    from m s f nz False pad_loop_pow [OF pos len, of "digits_value fs"] show ?thesis
      by (simp add: hvsc_parse_simple_timestamp_def byte_at_ptr_def timestamp_ms_def)
  qed
qed

text \<open>
  Claim C1, as the code has it. For digit runs \<open>ms\<close>, \<open>ss\<close> and \<open>fs\<close>, with the seconds
  at most 59 and at most three fraction digits (none: the text is \<open>M:SS\<close>), the parser
  returns \<open>(M * 60 + SS) * 1000\<close> plus the fraction right-padded with zeros to
  milliseconds, leaves the error state as it was and stores the end of the text in
  \<open>*endptr\<close>, provided that this number of milliseconds fits the \<open>long\<close> the function
  returns.
\<close>

theorem parse_timestamp_milliseconds:
  assumes "list_all isdigit ms" and "list_all isdigit ss" and "digits_value ss \<le> 59"
    and "list_all isdigit fs" and "length fs \<le> 3"
    and "timestamp_ms ms ss fs < 2 ^ 63"
  shows "sint (retval (hvsc_parse_simple_timestamp (timestamp_text ms ss fs) e p)) =
           int (timestamp_ms ms ss fs)
       \<and> hvsc_errno (hvsc_parse_simple_timestamp (timestamp_text ms ss fs) e p) = e
       \<and> endptr (hvsc_parse_simple_timestamp (timestamp_text ms ss fs) e p) = Some []"
  using assms by (simp add: parse_well_formed sint_long_of_nat)

text \<open>The examples of the claim: "1:02.5", "1:02.05", "1:02.005", and "1:02".\<close>

theorem parse_timestamp_milliseconds_witness:
  "list_all isdigit ''1'' \<and> list_all isdigit ''02'' \<and> digits_value ''02'' \<le> 59
   \<and> list_all isdigit ''5'' \<and> list_all isdigit ''05'' \<and> list_all isdigit ''005''
   \<and> sint (retval (hvsc_parse_simple_timestamp ''1:02.5'' HVSC_ERR_OK None)) = 62500
   \<and> sint (retval (hvsc_parse_simple_timestamp ''1:02.05'' HVSC_ERR_OK None)) = 62050
   \<and> sint (retval (hvsc_parse_simple_timestamp ''1:02.005'' HVSC_ERR_OK None)) = 62005
   \<and> sint (retval (hvsc_parse_simple_timestamp ''1:02'' HVSC_ERR_OK None)) = 62000"
  using parse_timestamp_milliseconds [of "''1''" "''02''" "''5''" HVSC_ERR_OK None]
    parse_timestamp_milliseconds [of "''1''" "''02''" "''05''" HVSC_ERR_OK None]
    parse_timestamp_milliseconds [of "''1''" "''02''" "''005''" HVSC_ERR_OK None]
    parse_timestamp_milliseconds [of "''1''" "''02''" "[]" HVSC_ERR_OK None]
  by (simp add: isdigit_def digits_value_def timestamp_text_def timestamp_ms_def)

text \<open>
  Claim C1 as stated fails where the milliseconds do not fit a \<open>long\<close>: for
  "153722867280913:00" the minutes and seconds are digit runs and the seconds are 0, but
  \<open>153722867280913 * 60 * 1000\<close> is above \<open>2 ^ 63 - 1\<close> and the returned \<open>long\<close> is
  another number.
\<close>

theorem parse_timestamp_overflow:
  "list_all isdigit ''153722867280913'' \<and> list_all isdigit ''00''
   \<and> digits_value ''00'' \<le> 59
   \<and> digits_value ''153722867280913'' = 153722867280913 \<and> digits_value ''00'' = 0
   \<and> sint (retval (hvsc_parse_simple_timestamp ''153722867280913:00'' HVSC_ERR_OK None))
       \<noteq> (153722867280913 * 60 + 0) * 1000"
  by (simp add: isdigit_def digits_value_def hvsc_parse_simple_timestamp_def byte_at_ptr_def
      long_of_char_def word_sless_alt)

text \<open>
  Claim C3 at its failing inputs. With the seconds above 59 ("1:60") and with a dot that
  no digit follows ("1:30.") the function returns \<open>-1\<close> and sets the error state, but
  \<open>*endptr\<close> keeps the value \<open>p\<close> it had before the call; only the path for a missing
  colon ("130") stores the scan position.
\<close>

theorem failure_paths_leave_endptr:
  "hvsc_parse_simple_timestamp ''1:60'' e p =
     \<lparr>retval = - 1, hvsc_errno = HVSC_ERR_TIMESTAMP, endptr = p\<rparr>
   \<and> hvsc_parse_simple_timestamp ''1:30.'' e p =
     \<lparr>retval = - 1, hvsc_errno = HVSC_ERR_TIMESTAMP, endptr = p\<rparr>
   \<and> hvsc_parse_simple_timestamp ''130'' e p =
     \<lparr>retval = - 1, hvsc_errno = HVSC_ERR_TIMESTAMP, endptr = Some []\<rparr>"
  by (simp add: hvsc_parse_simple_timestamp_def byte_at_ptr_def isdigit_def long_of_char_def
      word_sless_alt)

text \<open>
  Claim C6. Whenever the text starts with a digit run, a colon and a digit run whose
  value is 60 or more (whatever follows, more digits included), the parser returns
  \<open>-1\<close> and sets the error state to malformed-timestamp.
\<close>

theorem seconds_over_59_fails:
  assumes "list_all isdigit ms" and "list_all isdigit ss" and "60 \<le> digits_value ss"
  shows "sint (retval (hvsc_parse_simple_timestamp (ms @ CHR '':'' # ss @ rest) e p)) = - 1
       \<and> hvsc_errno (hvsc_parse_simple_timestamp (ms @ CHR '':'' # ss @ rest) e p)
           = HVSC_ERR_TIMESTAMP"
proof -
  have colon: "\<not> isdigit (byte_at_ptr (CHR '':'' # ss @ rest))"
    by (simp add: byte_at_ptr_def isdigit_def)
  have m: "minutes_loop (ms @ CHR '':'' # ss @ rest) 0 =
      (CHR '':'' # ss @ rest, word_of_nat (digits_value ms))"
    using minutes_loop_digits [OF assms(1) colon, of 0]
    by (simp add: digits_value_def)
  from assms(3) have "60 \<le> digits_from 0 ss" by (simp add: digits_value_def)
  from seconds_loop_over [OF assms(2) _ this, of rest]
  have "seconds_loop (ss @ rest) 0 = None" by simp
  with m show ?thesis
    by (simp add: hvsc_parse_simple_timestamp_def byte_at_ptr_def)
qed

theorem seconds_over_59_fails_witness:
  "list_all isdigit ''1'' \<and> list_all isdigit ''60'' \<and> 60 \<le> digits_value ''60''
   \<and> sint (retval (hvsc_parse_simple_timestamp ''1:60.5'' HVSC_ERR_OK None)) = - 1
   \<and> hvsc_errno (hvsc_parse_simple_timestamp ''1:60.5'' HVSC_ERR_OK None)
       = HVSC_ERR_TIMESTAMP"
  using seconds_over_59_fails [of "''1''" "''60''" "''.5''" HVSC_ERR_OK None]
  by (simp add: isdigit_def digits_value_def)

text \<open>
  Claim C10. The parser accepts an empty digit run on either side of the colon: ":30"
  gives 30000 ms and "5:" gives 300000 ms, both without touching the error state, and
  for "5:" the stored scan position is the end of the text, two bytes in, right after
  the colon.
\<close>

theorem parse_empty_digit_runs:
  "hvsc_parse_simple_timestamp '':30'' e p =
     \<lparr>retval = 30000, hvsc_errno = e, endptr = Some []\<rparr>
   \<and> hvsc_parse_simple_timestamp ''5:'' e p =
     \<lparr>retval = 300000, hvsc_errno = e, endptr = Some []\<rparr>
   \<and> sint (30000 :: long) = 30000 \<and> sint (300000 :: long) = 300000
   \<and> ptr_offset ''5:'' [] = 2"
  by (simp add: hvsc_parse_simple_timestamp_def byte_at_ptr_def isdigit_def long_of_char_def
      word_sless_alt ptr_offset_def)

section \<open>Field-tag recogniser: proofs\<close>

lemma byte_diff_nonzero:
  "a \<noteq> b \<Longrightarrow> int (of_char a) - int (of_char b) \<noteq> 0"
  by simp

lemma strncmp_literal:
  "length lit = n \<Longrightarrow> CHR 0x00 \<notin> set lit \<Longrightarrow> (strncmp s lit n = 0) = (take n s = lit)"
proof (induction n arbitrary: s lit)
  case 0
  then show ?case by simp
next
  case (Suc n)
  then obtain y ys where lit: "lit = y # ys" by (cases lit) simp_all
  with Suc.prems have y: "y \<noteq> CHR 0x00" and ys: "length ys = n" "CHR 0x00 \<notin> set ys"
    by auto
  show ?case
  proof (cases s)
    case Nil
    from y have "int (of_char (CHR 0x00)) - int (of_char y) \<noteq> 0"
      by (intro byte_diff_nonzero) simp
    with Nil lit y show ?thesis by (simp add: byte_at_ptr_def)
  next
    case (Cons x xs)
    with lit y Suc.IH [OF ys, of xs] show ?thesis by (simp add: byte_at_ptr_def)
  qed
qed

lemma get_field_type_cases:
  "hvsc_get_field_type s =
     (if take 8 s = '' ARTIST:'' then 0
      else if take 8 s = '' AUTHOR:'' then 1
      else if take 8 s = ''    BUG:'' then 2
      else if take 8 s = ''COMMENT:'' then 3
      else if take 8 s = ''   NAME:'' then 4
      else if take 8 s = ''  TITLE:'' then 5
      else HVSC_FIELD_INVALID)"
  by (simp add: hvsc_get_field_type_def field_identifiers_def strncmp_literal)

text \<open>
  Claim C4, as the code has it. The line "  TITLE:Some Song" with two leading spaces, as
  the literal has them, is TITLE (index 5); a line whose first 8 bytes are none of the
  literals is INVALID (-1); and in general the result is the first index, in the order
  of the list, whose literal equals the first 8 bytes of the line.
\<close>

theorem get_field_type_first_match:
  "hvsc_get_field_type ''  TITLE:Some Song'' = 5
   \<and> (take 8 s \<notin> set field_identifiers \<longrightarrow> hvsc_get_field_type s = HVSC_FIELD_INVALID)
   \<and> HVSC_FIELD_INVALID = - 1
   \<and> hvsc_get_field_type s =
       (case find (\<lambda>k. take 8 s = field_identifiers ! k) [0..<length field_identifiers] of
          None \<Rightarrow> HVSC_FIELD_INVALID
        | Some k \<Rightarrow> int k)"
  by (simp add: get_field_type_cases field_identifiers_def HVSC_FIELD_INVALID_def upt_rec)

theorem get_field_type_first_match_witness:
  "take 8 ''Some free text'' \<notin> set field_identifiers
   \<and> hvsc_get_field_type ''Some free text'' = - 1"
  using get_field_type_first_match [of "''Some free text''"]
  by (simp add: field_identifiers_def)

text \<open>
  Claim C4 as stated fails at its own example: with three leading spaces the first 8
  bytes of "   TITLE:Some Song" are "   TITLE", which is not the literal "  TITLE:", and
  the line is INVALID.
\<close>

theorem three_spaces_title_invalid:
  "hvsc_get_field_type ''   TITLE:Some Song'' = - 1
   \<and> hvsc_get_field_type ''   TITLE:Some Song'' \<noteq> 5"
  by (simp add: get_field_type_cases HVSC_FIELD_INVALID_def)

section \<open>Path utilities: proofs\<close>

lemma memcmp_eq_iff:
  "n \<le> length a \<Longrightarrow> n \<le> length b \<Longrightarrow> (memcmp a b n = 0) = (take n a = take n b)"
proof (induction n arbitrary: a b)
  case 0
  show ?case by simp
next
  case (Suc n)
  then obtain x xs y ys where a: "a = x # xs" and b: "b = y # ys"
    by (cases a; cases b) simp_all
  with Suc show ?case by (simp add: byte_at_ptr_def)
qed

lemma root_of_set_paths: "hvsc_root_path (hvsc_set_paths cfg root) = Some root"
  by (simp add: hvsc_set_paths_def Let_def hvsc_strdup_def)

text \<open>
  Claim C8. \<open>hvsc_path_is_hvsc\<close> is true exactly when a root is configured, the path is
  strictly longer than the root and its first \<open>length root\<close> bytes are the root; a path
  equal to the configured root is not under it.
\<close>

theorem path_is_hvsc_iff:
  "hvsc_path_is_hvsc g pth =
     (\<exists>r. hvsc_root_path g = Some r \<and> length r < length pth \<and> take (length r) pth = r)
   \<and> hvsc_path_is_hvsc (hvsc_set_paths cfg root) root = False"
proof -
  have "hvsc_path_is_hvsc g pth =
     (\<exists>r. hvsc_root_path g = Some r \<and> length r < length pth \<and> take (length r) pth = r)"
  proof (cases "hvsc_root_path g")
    case None
    then show ?thesis by (simp add: hvsc_path_is_hvsc_def)
  next
    case (Some r)
    show ?thesis
    proof (cases "length r < length pth")
      case True
      then have "(memcmp pth r (length r) = 0) = (take (length r) pth = take (length r) r)"
        by (intro memcmp_eq_iff) simp_all
      with Some True show ?thesis by (simp add: hvsc_path_is_hvsc_def)
    next
      case False
      with Some show ?thesis by (simp add: hvsc_path_is_hvsc_def)
    qed
  qed
  moreover have "hvsc_path_is_hvsc (hvsc_set_paths cfg root) root = False"
    by (simp add: hvsc_path_is_hvsc_def root_of_set_paths)
  ultimately show ?thesis by simp
qed

lemma strip_root_prefixed:
  assumes g: "hvsc_root_path g = Some r" and r: "r \<noteq> []" and rest: "rest \<noteq> []"
  shows "hvsc_path_strip_root g (r @ rest) = rest"
proof -
  have "(memcmp (r @ rest) r (length r) = 0) = (take (length r) (r @ rest) = take (length r) r)"
    by (intro memcmp_eq_iff) simp_all
  then have "memcmp (r @ rest) r (length r) = 0" by simp
  with g r rest show ?thesis by (simp add: hvsc_path_strip_root_def)
qed

text \<open>
  Claim C2, as the code has it. With the root configured, joining root and \<open>x\<close> gives the
  root, one separator and \<open>x\<close>; stripping the root from that leaves the separator in
  front of \<open>x\<close>, so the root followed by the stripped path is the joined path again,
  while joining the root and the stripped path puts a second separator in.
\<close>

theorem strip_root_of_join:
  "hvsc_paths_join cfg (Some root) (Some x) = Some (root @ dir_separator cfg # x)
   \<and> hvsc_path_strip_root (hvsc_set_paths cfg root) (root @ dir_separator cfg # x)
       = dir_separator cfg # x
   \<and> root @ hvsc_path_strip_root (hvsc_set_paths cfg root) (root @ dir_separator cfg # x)
       = root @ dir_separator cfg # x
   \<and> hvsc_paths_join cfg (Some root) (Some (dir_separator cfg # x))
       = Some (root @ dir_separator cfg # dir_separator cfg # x)"
proof -
  have "hvsc_path_strip_root (hvsc_set_paths cfg root) (root @ dir_separator cfg # x)
       = dir_separator cfg # x"
  proof (cases "root = []")
    case True
    then show ?thesis
      by (simp add: hvsc_path_strip_root_def root_of_set_paths hvsc_strdup_def)
  next
    case False
    then show ?thesis
      by (intro strip_root_prefixed) (simp_all add: root_of_set_paths)
  qed
  then show ?thesis by (simp add: hvsc_paths_join_def)
qed

text \<open>
  Claim C2 as stated fails: with the root "/hvsc" and \<open>x\<close> = "a.sid", which does not
  start with the root, the joined path is "/hvsc/a.sid", the stripped path "/a.sid", and
  joining again gives "/hvsc//a.sid".
\<close>

theorem join_strip_join_doubles_separator:
  "take (length ''/hvsc'') ''a.sid'' \<noteq> ''/hvsc''
   \<and> hvsc_paths_join posix_build (Some ''/hvsc'') (Some ''a.sid'') = Some ''/hvsc/a.sid''
   \<and> hvsc_path_strip_root (hvsc_set_paths posix_build ''/hvsc'') ''/hvsc/a.sid'' = ''/a.sid''
   \<and> hvsc_paths_join posix_build (Some ''/hvsc'') (Some ''/a.sid'') = Some ''/hvsc//a.sid''
   \<and> hvsc_paths_join posix_build (Some ''/hvsc'') (Some ''/a.sid'')
       \<noteq> hvsc_paths_join posix_build (Some ''/hvsc'') (Some ''a.sid'')"
  by (simp add: hvsc_paths_join_def hvsc_path_strip_root_def root_of_set_paths hvsc_strdup_def
      posix_build_def dir_separator_def byte_at_ptr_def eval_nat_numeral)

section \<open>Buffered text reader: proofs\<close>

lemma length_hvsc_realloc: "length (hvsc_realloc b n) = n"
  by (simp add: hvsc_realloc_def)

lemma read_loop_keeps_capacity:
  "fp h = Some f \<Longrightarrow> pending f = cs \<Longrightarrow> buffer h = Some buf \<Longrightarrow> prevbuf h = Some prev \<Longrightarrow>
   length buf = buflen h \<Longrightarrow> length prev = buflen h \<Longrightarrow> i < buflen h \<Longrightarrow>
   \<exists>r h' e'. text_file_read_loop h i e = Some (r, h', e')
       \<and> readable_handle h' \<and> buflen h \<le> buflen h'"
proof (induction cs arbitrary: h f buf prev i)
  case Nil
  from Nil have g: "fgetc f = (None, if device_fails f then f\<lparr>error_indicator := True\<rparr>
          else f\<lparr>eof_indicator := True\<rparr>)"
    by (simp add: fgetc_def)
  from Nil show ?case
    by (subst text_file_read_loop.simps)
      (simp add: g Let_def store_byte_def length_hvsc_realloc feof_def readable_handle_def
        equal_capacity_def)
next
  case (Cons c cs)
  from Cons.prems have g: "fgetc f = (Some c, f\<lparr>pending := cs\<rparr>)"
    by (simp add: fgetc_def)
  let ?len = "if i + 1 = buflen h then buflen h * 2 else buflen h"
  let ?buf = "if i + 1 = buflen h then hvsc_realloc buf ?len else buf"
  let ?prev = "if i + 1 = buflen h then hvsc_realloc prev ?len else prev"
  from Cons.prems have lb: "length ?buf = ?len" and lp: "length ?prev = ?len"
    and i: "i < ?len" and i1: "c \<noteq> CHR 0x0A \<Longrightarrow> i + 1 < ?len" and le: "buflen h \<le> ?len"
    by (simp_all add: length_hvsc_realloc)
  show ?case
  proof (cases "c = CHR 0x0A")
    case True
    with Cons.prems g show ?thesis
      by (subst text_file_read_loop.simps)
        (simp add: Let_def store_byte_def length_hvsc_realloc readable_handle_def
          equal_capacity_def)
  next
    case False
    let ?h2 = "h\<lparr>buflen := ?len, buffer := Some ?buf, prevbuf := Some ?prev,
        fp := Some (f\<lparr>pending := cs\<rparr>), buffer := Some (?buf[i := Some c])\<rparr>"
    have "\<exists>r h' e'. text_file_read_loop ?h2 (i + 1) e = Some (r, h', e')
       \<and> readable_handle h' \<and> buflen ?h2 \<le> buflen h'"
    proof (rule Cons.IH)
      show "fp ?h2 = Some (f\<lparr>pending := cs\<rparr>)" by simp
      show "pending (f\<lparr>pending := cs\<rparr>) = cs" by simp
      show "buffer ?h2 = Some (?buf[i := Some c])" by simp
      show "prevbuf ?h2 = Some ?prev" by simp
      from lb show "length (?buf[i := Some c]) = buflen ?h2" by simp
      from lp show "length ?prev = buflen ?h2" by simp
      from i1 False show "i + 1 < buflen ?h2" by simp
    qed
    then obtain r h' e' where res: "text_file_read_loop ?h2 (i + 1) e = Some (r, h', e')"
      and inv: "readable_handle h'" and grow: "?len \<le> buflen h'" by auto
    have "text_file_read_loop h i e = text_file_read_loop ?h2 (i + 1) e"
      using Cons.prems g False
      by (subst text_file_read_loop.simps)
        (simp add: Let_def store_byte_def length_hvsc_realloc)
    with res inv grow le show ?thesis
      by (intro exI [of _ r] exI [of _ h'] exI [of _ e']) simp
  qed
qed

lemma read_keeps_capacity:
  assumes "readable_handle h"
  shows "\<exists>r h' e'. hvsc_text_file_read h e = Some (r, h', e')
       \<and> readable_handle h' \<and> buflen h \<le> buflen h'"
proof -
  from assms obtain f buf prev where h: "fp h = Some f" "buffer h = Some buf"
    "prevbuf h = Some prev" "length buf = buflen h" "length prev = buflen h" "0 < buflen h"
    by (auto simp: readable_handle_def equal_capacity_def split: option.splits)
  let ?h1 = "h\<lparr>prevbuf := Some (take (buflen h) buf @ drop (buflen h) prev)\<rparr>"
  have "\<exists>r h' e'. text_file_read_loop ?h1 0 e = Some (r, h', e')
       \<and> readable_handle h' \<and> buflen ?h1 \<le> buflen h'"
  proof (rule read_loop_keeps_capacity)
    from h show "fp ?h1 = Some f" by simp
    show "pending f = pending f" by simp
    from h show "buffer ?h1 = Some buf" by simp
    show "prevbuf ?h1 = Some (take (buflen h) buf @ drop (buflen h) prev)" by simp
    from h show "length buf = buflen ?h1" by simp
    from h show "length (take (buflen h) buf @ drop (buflen h) prev) = buflen ?h1" by simp
    from h show "0 < buflen ?h1" by simp
  qed
  with h show ?thesis by (simp add: hvsc_text_file_read_def)
qed

lemma open_capacity:
  assumes "hvsc_text_file_open fs pth h0 e0 = (ok, h1, e1)"
  shows "equal_capacity h1"
    and "ok \<Longrightarrow> readable_handle h1 \<and> buflen h1 = READFILE_LINE_SIZE"
  using assms
  by (auto simp: hvsc_text_file_open_def hvsc_text_file_init_handle_def Let_def
      equal_capacity_def readable_handle_def hvsc_malloc_def READFILE_LINE_SIZE_def
      split: option.splits)

lemma close_releases:
  "buffer (hvsc_text_file_close h) = None \<and> prevbuf (hvsc_text_file_close h) = None
   \<and> equal_capacity (hvsc_text_file_close h)"
  by (simp add: hvsc_text_file_close_def Let_def equal_capacity_def)

text \<open>
  Claim C9. The two line buffers of a handle have the same capacity, \<open>buflen\<close>: after
  \<open>hvsc_text_file_open\<close>, whether it succeeds (both have 1024 bytes) or fails (both
  are null); after every \<open>hvsc_text_file_read\<close> on a readable handle, which returns and
  leaves a readable handle whose \<open>buflen\<close> is not below the one before; and after
  \<open>hvsc_text_file_close\<close>, which leaves both null.
\<close>

theorem text_file_buffers_equal_capacity:
  assumes "hvsc_text_file_open fs pth h0 e0 = (ok, h1, e1)"
  shows "equal_capacity h1
       \<and> (ok \<longrightarrow> readable_handle h1 \<and> buflen h1 = READFILE_LINE_SIZE)
       \<and> (readable_handle h \<longrightarrow>
            (\<exists>r h' e'. hvsc_text_file_read h e = Some (r, h', e')
               \<and> readable_handle h' \<and> equal_capacity h' \<and> buflen h \<le> buflen h'))
       \<and> buffer (hvsc_text_file_close h) = None \<and> prevbuf (hvsc_text_file_close h) = None
       \<and> equal_capacity (hvsc_text_file_close h)"
proof -
  have "readable_handle h \<longrightarrow>
            (\<exists>r h' e'. hvsc_text_file_read h e = Some (r, h', e')
               \<and> readable_handle h' \<and> equal_capacity h' \<and> buflen h \<le> buflen h')"
  proof
    assume "readable_handle h"
    from read_keeps_capacity [OF this, of e]
    show "\<exists>r h' e'. hvsc_text_file_read h e = Some (r, h', e')
               \<and> readable_handle h' \<and> equal_capacity h' \<and> buflen h \<le> buflen h'"
      by (auto simp: readable_handle_def)
  qed
  with open_capacity [OF assms] close_releases [of h] show ?thesis by blast
qed

text \<open>The handle that opening a three-byte file gives is readable, and reading it keeps
  the invariant.\<close>

theorem text_file_buffers_equal_capacity_witness:
  "hvsc_text_file_open (single_file ''f'' ''abc'') ''f'' fresh_handle HVSC_ERR_OK =
     (True, fst (snd (hvsc_text_file_open (single_file ''f'' ''abc'') ''f'' fresh_handle HVSC_ERR_OK)),
      HVSC_ERR_OK)
   \<and> readable_handle
       (fst (snd (hvsc_text_file_open (single_file ''f'' ''abc'') ''f'' fresh_handle HVSC_ERR_OK)))
   \<and> (\<exists>r h' e'.
        hvsc_text_file_read
          (fst (snd (hvsc_text_file_open (single_file ''f'' ''abc'') ''f'' fresh_handle HVSC_ERR_OK)))
          HVSC_ERR_OK = Some (r, h', e')
        \<and> readable_handle h' \<and> equal_capacity h'
        \<and> READFILE_LINE_SIZE \<le> buflen h')"
proof -
  let ?h = "fst (snd (hvsc_text_file_open (single_file ''f'' ''abc'') ''f'' fresh_handle HVSC_ERR_OK))"
  have opened: "hvsc_text_file_open (single_file ''f'' ''abc'') ''f'' fresh_handle HVSC_ERR_OK =
     (True, ?h, HVSC_ERR_OK)"
    by (simp add: hvsc_text_file_open_def fopen_def single_file_def Let_def)
  from text_file_buffers_equal_capacity [OF opened, of ?h HVSC_ERR_OK]
  show ?thesis using opened by auto
qed

text \<open>
  Claim C5. Read through a freshly opened handle, the file "line1\<open>\r\n\<close>line2\<open>\n\<close>"
  gives "line1" with line number 1, "line2" with line number 2, then \<open>NULL\<close>; the file
  "lastline" gives "lastline" with the line number still 0, then \<open>NULL\<close>. The error
  state stays as it was (no error) through all five calls.
\<close>

theorem text_file_read_examples:
  "(case hvsc_text_file_open (single_file ''f'' two_lines_crlf) ''f'' fresh_handle HVSC_ERR_OK of
      (ok, h, e) \<Rightarrow> (ok, text_file_reads 3 h e)) =
     (True, [(Some ''line1'', 1, HVSC_ERR_OK), (Some ''line2'', 2, HVSC_ERR_OK),
             (None, 2, HVSC_ERR_OK)])
   \<and> (case hvsc_text_file_open (single_file ''f'' ''lastline'') ''f'' fresh_handle HVSC_ERR_OK of
      (ok, h, e) \<Rightarrow> (ok, text_file_reads 2 h e)) =
     (True, [(Some ''lastline'', 0, HVSC_ERR_OK), (None, 0, HVSC_ERR_OK)])"
  by code_simp

section \<open>Bulk file loader: proofs\<close>

lemma block_size_pos: "0 < READFILE_BLOCK_SIZE"
  by (simp add: READFILE_BLOCK_SIZE_def)

lemma multiple_gap:
  fixes b x y :: nat
  assumes "b dvd x" and "b dvd y" and "x < y"
  shows "x + b \<le> y"
proof -
  from assms(1) obtain k where x: "x = b * k" by (auto simp: dvd_def)
  from assms(2) obtain l where y: "y = b * l" by (auto simp: dvd_def)
  from assms(3) x y have "k < l" by (metis mult_less_cancel1)
  then have "b * (k + 1) \<le> b * l" by (intro mult_le_mono2) simp
  with x y show ?thesis by simp
qed

lemma realloc_keeps_contents:
  "length b \<le> n \<Longrightarrow> k \<le> length b \<Longrightarrow> take k (hvsc_realloc b n) = take k b"
  by (simp add: hvsc_realloc_def)

lemma fread_short:
  "length (pending fd) < n \<Longrightarrow>
   fread n fd = (pending fd,
     if device_fails fd then fd\<lparr>pending := [], error_indicator := True\<rparr>
     else fd\<lparr>pending := [], eof_indicator := True\<rparr>)"
  by (simp add: fread_def Let_def)

lemma fread_full:
  "n \<le> length (pending fd) \<Longrightarrow>
   fread n fd = (take n (pending fd), fd\<lparr>pending := drop n (pending fd)\<rparr>)"
  by (simp add: fread_def Let_def)

lemma live_blocks_append: "live_blocks (hp @ hp') = live_blocks hp @ live_blocks hp'"
  by (simp add: live_blocks_def)

lemma live_blocks_single: "live_blocks [None] = []" "live_blocks [Some b] = [b]"
  by (simp_all add: live_blocks_def)

lemma doublings_unique:
  "n < 2 ^ k \<Longrightarrow> k = 0 \<or> 2 ^ k \<le> 2 * n \<Longrightarrow> doublings n = k"
proof (induction k arbitrary: n)
  case 0
  then have "n = 0" by simp
  then show ?case by (simp add: doublings.simps)
next
  case (Suc j)
  from Suc.prems have le: "2 ^ j \<le> n" by simp
  then have pos: "n \<noteq> 0" by (cases "n = 0") simp_all
  from Suc.prems(1) have half: "n div 2 < 2 ^ j" by simp
  have "j = 0 \<or> 2 ^ j \<le> 2 * (n div 2)"
  proof (cases j)
    case 0
    then show ?thesis by simp
  next
    case (Suc i)
    with le have "2 * 2 ^ i \<le> n" by simp
    then have "2 ^ i \<le> n div 2" by simp
    with Suc show ?thesis by simp
  qed
  with half have "doublings (n div 2) = j" by (rule Suc.IH)
  with pos show ?case by (subst doublings.simps) simp
qed

text \<open>One iteration of the loop, by the way it ends.\<close>

lemma read_file_loop_fails:
  assumes "(if offset = size0 then hvsc_realloc_heap hp data0 (size0 * 2) else Some (data0, hp))
      = Some (data, hp1)"
    and "fread READFILE_BLOCK_SIZE fd = (got, fd')"
    and "heap_store_bytes hp1 data offset got = Some hp2"
    and "length got < READFILE_BLOCK_SIZE" and "\<not> feof fd'"
    and "hvsc_free_heap hp2 data = Some hp3"
  shows "read_file_loop fd hp data0 offset size0 e = Some (- 1, None, HVSC_ERR_IO, hp3)"
  using assms by (subst read_file_loop.simps) (simp add: Let_def split: if_splits)

lemma read_file_loop_eof:
  assumes "(if offset = size0 then hvsc_realloc_heap hp data0 (size0 * 2) else Some (data0, hp))
      = Some (data, hp1)"
    and "fread READFILE_BLOCK_SIZE fd = (got, fd')"
    and "heap_store_bytes hp1 data offset got = Some hp2"
    and "length got < READFILE_BLOCK_SIZE" and "feof fd'"
  shows "read_file_loop fd hp data0 offset size0 e =
     Some (word_of_nat (offset + length got), Some data, e, hp2)"
  using assms by (subst read_file_loop.simps) (simp add: Let_def split: if_splits)

lemma read_file_loop_again:
  assumes "(if offset = size0 then hvsc_realloc_heap hp data0 (size0 * 2) else Some (data0, hp))
      = Some (data, hp1)"
    and "fread READFILE_BLOCK_SIZE fd = (got, fd')"
    and "heap_store_bytes hp1 data offset got = Some hp2"
    and "\<not> length got < READFILE_BLOCK_SIZE"
  shows "read_file_loop fd hp data0 offset size0 e =
     read_file_loop fd' hp2 data (offset + READFILE_BLOCK_SIZE)
       (if offset = size0 then size0 * 2 else size0) e"
  using assms by (subst read_file_loop.simps) (simp add: Let_def split: if_splits)

text \<open>
  The loop, from any state it can be in at the head of an iteration: \<open>data0\<close> is a live
  block of \<open>size0\<close> bytes that starts with the \<open>offset\<close> bytes loaded so far; both
  numbers are multiples of the chunk size, and the capacity is the chunk size doubled
  \<open>k\<close> times, no further than the offset has forced.
\<close>

lemma read_file_loop_result:
  assumes "\<not> eof_indicator fd"
    and "heap_block hp data0 = Some blk" and "length blk = size0"
    and "READFILE_BLOCK_SIZE dvd offset" and "size0 = READFILE_BLOCK_SIZE * 2 ^ k"
    and "offset \<le> size0"
    and "take offset blk = map Some loaded" and "length loaded = offset"
    and "k = 0 \<or> size0 \<le> 2 * offset"
  shows "if device_fails fd
         then \<exists>hp'. read_file_loop fd hp data0 offset size0 e = Some (- 1, None, HVSC_ERR_IO, hp')
                \<and> live_blocks hp' = live_blocks (hp[data0 := None])
         else \<exists>ptr data hp' k'. read_file_loop fd hp data0 offset size0 e =
                  Some (word_of_nat (offset + length (pending fd)), Some ptr, e, hp')
                \<and> heap_block hp' ptr = Some data
                \<and> live_blocks (hp'[ptr := None]) = live_blocks (hp[data0 := None])
                \<and> take (offset + length (pending fd)) data = map Some (loaded @ pending fd)
                \<and> length data = READFILE_BLOCK_SIZE * 2 ^ k'
                \<and> offset + length (pending fd) - length (pending fd) mod READFILE_BLOCK_SIZE
                    < length data
                \<and> offset + length (pending fd) < length data
                \<and> (k' = 0 \<or> length data
                      \<le> 2 * (offset + length (pending fd)
                              - length (pending fd) mod READFILE_BLOCK_SIZE))"
  using assms
proof (induction "length (pending fd)" arbitrary: fd hp data0 blk offset size0 loaded k
    rule: less_induct)
  case less
  let ?B = READFILE_BLOCK_SIZE
  let ?resize = "offset = size0"
  let ?size1 = "if ?resize then size0 * 2 else size0"
  let ?k1 = "if ?resize then Suc k else k"
  let ?blk1 = "if ?resize then hvsc_realloc blk ?size1 else blk"
  let ?data = "if ?resize then length hp else data0"
  let ?hp1 = "if ?resize then hp[data0 := None] @ [Some ?blk1] else hp"
  from less.prems(2) have d0: "data0 < length hp" "hp ! data0 = Some blk"
    by (auto simp: heap_block_def split: if_splits)
  have re: "(if ?resize then hvsc_realloc_heap hp data0 (size0 * 2) else Some (data0, hp))
      = Some (?data, ?hp1)"
    using less.prems(2) by (simp add: hvsc_realloc_heap_def)
  have hb1: "heap_block ?hp1 ?data = Some ?blk1"
    using d0 by (simp add: heap_block_def nth_append)
  have others1: "live_blocks (?hp1[?data := None]) = live_blocks (hp[data0 := None])"
    by (simp add: live_blocks_append live_blocks_single list_update_append)
  have len: "length ?blk1 = ?size1"
    using less.prems(3) by (simp add: length_hvsc_realloc)
  have size1: "?size1 = ?B * 2 ^ ?k1" using less.prems(5) by simp
  then have dvd1: "?B dvd ?size1" by (metis dvd_triv_left)
  have "0 < size0" using less.prems(5) block_size_pos by simp
  with less.prems(6) have "offset < ?size1" by simp
  with less.prems(4) dvd1 have room: "offset + ?B \<le> ?size1" by (rule multiple_gap)
  have tight1: "?k1 = 0 \<or> ?size1 \<le> 2 * offset"
    using less.prems(9) by auto
  have keep: "take offset ?blk1 = map Some loaded"
  proof (cases ?resize)
    case True
    with less.prems(3) have "take offset (hvsc_realloc blk (size0 * 2)) = take offset blk"
      by (intro realloc_keeps_contents) simp_all
    with True less.prems(7) show ?thesis by simp
  next
    case False
    with less.prems(7) show ?thesis by simp
  qed
  show ?case
  proof (cases "length (pending fd) < ?B")
    case True
    let ?blk' = "take offset ?blk1 @ map Some (pending fd)
        @ drop (offset + length (pending fd)) ?blk1"
    let ?hp2 = "?hp1[?data := Some ?blk']"
    from True room len have fits: "offset + length (pending fd) \<le> length ?blk1" by simp
    then have "store_bytes ?blk1 offset (pending fd) = Some ?blk'"
      by (simp add: store_bytes_def)
    with hb1 have st: "heap_store_bytes ?hp1 ?data offset (pending fd) = Some ?hp2"
      by (simp add: heap_store_bytes_def)
    have dlt: "?data < length ?hp1" using d0 by simp
    then have hb2: "heap_block ?hp2 ?data = Some ?blk'" by (simp add: heap_block_def)
    have others2: "live_blocks (?hp2[?data := None]) = live_blocks (hp[data0 := None])"
      using others1 by simp
    have tk: "take (offset + length (pending fd)) ?blk' = map Some (loaded @ pending fd)"
      using keep less.prems(8) fits by simp
    have ld: "length ?blk' = ?B * 2 ^ ?k1" using fits len size1 by simp
    from True have md: "length (pending fd) mod ?B = length (pending fd)" by simp
    from True room ld size1 have lt: "offset + length (pending fd) < length ?blk'" by simp
    from room ld size1 block_size_pos have lt0: "offset < length ?blk'" by simp
    from tight1 ld size1 have tg: "?k1 = 0 \<or> length ?blk' \<le> 2 * offset" by simp
    show ?thesis
    proof (cases "device_fails fd")
      case fails: True
      have fr: "fread ?B fd = (pending fd, fd\<lparr>pending := [], error_indicator := True\<rparr>)"
        using True fails by (simp add: fread_short)
      have "read_file_loop fd hp data0 offset size0 e
          = Some (- 1, None, HVSC_ERR_IO, ?hp2[?data := None])"
      proof (rule read_file_loop_fails [OF re fr st True])
        from less.prems(1) show "\<not> feof (fd\<lparr>pending := [], error_indicator := True\<rparr>)"
          by (simp add: feof_def)
        from hb2 show "hvsc_free_heap ?hp2 ?data = Some (?hp2[?data := None])"
          by (simp only: hvsc_free_heap_def option.case)
      qed
      with others2 have "\<exists>hp'. read_file_loop fd hp data0 offset size0 e
            = Some (- 1, None, HVSC_ERR_IO, hp')
          \<and> live_blocks hp' = live_blocks (hp[data0 := None])"
        by blast
      with fails show ?thesis by (simp only: if_True)
    next
      case ok: False
      have fr: "fread ?B fd = (pending fd, fd\<lparr>pending := [], eof_indicator := True\<rparr>)"
        using True ok by (simp add: fread_short)
      have "read_file_loop fd hp data0 offset size0 e =
          Some (word_of_nat (offset + length (pending fd)), Some ?data, e, ?hp2)"
        by (rule read_file_loop_eof [OF re fr st True]) (simp add: feof_def)
      with hb2 others2 tk ld lt lt0 tg md
      have "\<exists>ptr data hp' k'. read_file_loop fd hp data0 offset size0 e =
                  Some (word_of_nat (offset + length (pending fd)), Some ptr, e, hp')
                \<and> heap_block hp' ptr = Some data
                \<and> live_blocks (hp'[ptr := None]) = live_blocks (hp[data0 := None])
                \<and> take (offset + length (pending fd)) data = map Some (loaded @ pending fd)
                \<and> length data = READFILE_BLOCK_SIZE * 2 ^ k'
                \<and> offset + length (pending fd) - length (pending fd) mod READFILE_BLOCK_SIZE
                    < length data
                \<and> offset + length (pending fd) < length data
                \<and> (k' = 0 \<or> length data
                      \<le> 2 * (offset + length (pending fd)
                              - length (pending fd) mod READFILE_BLOCK_SIZE))"
        by (intro exI [of _ ?data] exI [of _ ?blk'] exI [of _ ?hp2] exI [of _ ?k1])
          (simp only: add_diff_cancel_right' simp_thms)
      with ok show ?thesis by (simp only: if_False)
    qed
  next
    case False
    then have full: "?B \<le> length (pending fd)" by simp
    let ?got = "take ?B (pending fd)"
    let ?fd' = "fd\<lparr>pending := drop ?B (pending fd)\<rparr>"
    let ?blk' = "take offset ?blk1 @ map Some ?got @ drop (offset + length ?got) ?blk1"
    let ?hp2 = "?hp1[?data := Some ?blk']"
    from full have lg: "length ?got = ?B" by simp
    with room len have "store_bytes ?blk1 offset ?got = Some ?blk'"
      by (simp add: store_bytes_def)
    with hb1 have st: "heap_store_bytes ?hp1 ?data offset ?got = Some ?hp2"
      by (simp add: heap_store_bytes_def)
    have dlt: "?data < length ?hp1" using d0 by simp
    then have hb2: "heap_block ?hp2 ?data = Some ?blk'" by (simp add: heap_block_def)
    have others2: "live_blocks (?hp2[?data := None]) = live_blocks (hp[data0 := None])"
      using others1 by simp
    have fr: "fread ?B fd = (?got, ?fd')" using full by (rule fread_full)
    from lg have nl: "\<not> length ?got < ?B" by simp
    have step: "read_file_loop fd hp data0 offset size0 e =
        read_file_loop ?fd' ?hp2 ?data (offset + ?B) ?size1 e"
      by (rule read_file_loop_again [OF re fr st nl])
    have smaller: "length (pending ?fd') < length (pending fd)"
      using full block_size_pos by simp
    have total: "offset + ?B + length (pending ?fd') = offset + length (pending fd)"
      using full by simp
    have cat: "(loaded @ ?got) @ pending ?fd' = loaded @ pending fd" by simp
    have md: "length (pending ?fd') mod ?B = length (pending fd) mod ?B"
      using full by (simp add: le_mod_geq)
    have fails: "device_fails ?fd' = device_fails fd" by simp
    have ih: "if device_fails ?fd'
         then \<exists>hp'. read_file_loop ?fd' ?hp2 ?data (offset + ?B) ?size1 e
                  = Some (- 1, None, HVSC_ERR_IO, hp')
                \<and> live_blocks hp' = live_blocks (?hp2[?data := None])
         else \<exists>ptr data hp' k'. read_file_loop ?fd' ?hp2 ?data (offset + ?B) ?size1 e =
                  Some (word_of_nat (offset + ?B + length (pending ?fd')), Some ptr, e, hp')
                \<and> heap_block hp' ptr = Some data
                \<and> live_blocks (hp'[ptr := None]) = live_blocks (?hp2[?data := None])
                \<and> take (offset + ?B + length (pending ?fd')) data
                    = map Some ((loaded @ ?got) @ pending ?fd')
                \<and> length data = READFILE_BLOCK_SIZE * 2 ^ k'
                \<and> offset + ?B + length (pending ?fd')
                      - length (pending ?fd') mod READFILE_BLOCK_SIZE < length data
                \<and> offset + ?B + length (pending ?fd') < length data
                \<and> (k' = 0 \<or> length data
                      \<le> 2 * (offset + ?B + length (pending ?fd')
                              - length (pending ?fd') mod READFILE_BLOCK_SIZE))"
    proof (rule less.hyps [OF smaller])
      from less.prems(1) show "\<not> eof_indicator ?fd'" by simp
      from hb2 show "heap_block ?hp2 ?data = Some ?blk'" .
      from room len lg show "length ?blk' = ?size1" by simp
      from less.prems(4) show "?B dvd offset + ?B" by simp
      from size1 show "?size1 = ?B * 2 ^ ?k1" .
      from room show "offset + ?B \<le> ?size1" .
      from keep less.prems(8) room len lg
      show "take (offset + ?B) ?blk' = map Some (loaded @ ?got)" by simp
      from less.prems(8) lg show "length (loaded @ ?got) = offset + ?B" by simp
      from tight1 show "?k1 = 0 \<or> ?size1 \<le> 2 * (offset + ?B)" by auto
    qed
    from ih show ?thesis unfolding step total cat md fails others2 .
  qed
qed

lemma new_stream_sel:
  "pending (new_stream bs fails) = bs" "device_fails (new_stream bs fails) = fails"
  "eof_indicator (new_stream bs fails) = False"
  by (simp_all add: new_stream_def)

lemma full_chunks: "n - n mod READFILE_BLOCK_SIZE = READFILE_BLOCK_SIZE * (n div READFILE_BLOCK_SIZE)"
  by (simp add: minus_mod_eq_mult_div)

lemma read_file_of_stream:
  assumes "fopen fs pth = Some (new_stream bs fails)"
  shows "if fails
         then \<exists>hp'. hvsc_read_file fs pth dest0 e hp = Some (- 1, None, HVSC_ERR_IO, hp')
                \<and> live_blocks hp' = live_blocks hp
         else \<exists>ptr data hp'. hvsc_read_file fs pth dest0 e hp =
                  Some (word_of_nat (length bs), Some ptr, e, hp')
                \<and> heap_block hp' ptr = Some data
                \<and> live_blocks (hp'[ptr := None]) = live_blocks hp
                \<and> take (length bs) data = map Some bs
                \<and> length data
                    = READFILE_BLOCK_SIZE * 2 ^ doublings (length bs div READFILE_BLOCK_SIZE)
                \<and> length bs < length data
                \<and> length data \<le> max READFILE_BLOCK_SIZE (2 * length bs)"
proof -
  let ?B = READFILE_BLOCK_SIZE
  let ?fd = "new_stream bs fails"
  let ?hp1 = "hp @ [Some (hvsc_malloc ?B)]"
  let ?n = "length bs div ?B"
  have run: "hvsc_read_file fs pth dest0 e hp = read_file_loop ?fd ?hp1 (length hp) 0 ?B e"
    using assms by (simp add: hvsc_read_file_def hvsc_malloc_heap_def)
  have before: "live_blocks (?hp1[length hp := None]) = live_blocks hp"
    by (simp add: live_blocks_append live_blocks_single)
  have loop: "if device_fails ?fd
         then \<exists>hp'. read_file_loop ?fd ?hp1 (length hp) 0 ?B e = Some (- 1, None, HVSC_ERR_IO, hp')
                \<and> live_blocks hp' = live_blocks (?hp1[length hp := None])
         else \<exists>ptr data hp' k'. read_file_loop ?fd ?hp1 (length hp) 0 ?B e =
                  Some (word_of_nat (0 + length (pending ?fd)), Some ptr, e, hp')
                \<and> heap_block hp' ptr = Some data
                \<and> live_blocks (hp'[ptr := None]) = live_blocks (?hp1[length hp := None])
                \<and> take (0 + length (pending ?fd)) data = map Some ([] @ pending ?fd)
                \<and> length data = ?B * 2 ^ k'
                \<and> 0 + length (pending ?fd) - length (pending ?fd) mod ?B < length data
                \<and> 0 + length (pending ?fd) < length data
                \<and> (k' = 0 \<or> length data
                      \<le> 2 * (0 + length (pending ?fd) - length (pending ?fd) mod ?B))"
  proof (rule read_file_loop_result [where k = 0 and blk = "hvsc_malloc ?B"])
    show "\<not> eof_indicator ?fd" by (simp add: new_stream_sel)
    show "heap_block ?hp1 (length hp) = Some (hvsc_malloc ?B)" by (simp add: heap_block_def)
    show "length (hvsc_malloc ?B) = ?B" by (simp add: hvsc_malloc_def)
    show "?B dvd 0" by simp
    show "?B = ?B * 2 ^ 0" by simp
    show "0 \<le> ?B" by simp
    show "take 0 (hvsc_malloc ?B) = map Some []" by simp
    show "length ([] :: string) = 0" by simp
    show "(0::nat) = 0 \<or> ?B \<le> 2 * 0" by simp
  qed
  show ?thesis
  proof (cases fails)
    case True
    with loop run before show ?thesis by (simp add: new_stream_sel)
  next
    case False
    with loop have "\<exists>ptr data hp' k'. read_file_loop ?fd ?hp1 (length hp) 0 ?B e =
                  Some (word_of_nat (length bs), Some ptr, e, hp')
                \<and> heap_block hp' ptr = Some data
                \<and> live_blocks (hp'[ptr := None]) = live_blocks (?hp1[length hp := None])
                \<and> take (length bs) data = map Some bs
                \<and> length data = ?B * 2 ^ k'
                \<and> length bs - length bs mod ?B < length data
                \<and> length bs < length data
                \<and> (k' = 0 \<or> length data \<le> 2 * (length bs - length bs mod ?B))"
      by (simp only: new_stream_sel add_0 append_Nil if_False)
    then obtain ptr data hp' k' where
      res: "read_file_loop ?fd ?hp1 (length hp) 0 ?B e =
          Some (word_of_nat (length bs), Some ptr, e, hp')"
      and blk: "heap_block hp' ptr = Some data"
      and others: "live_blocks (hp'[ptr := None]) = live_blocks (?hp1[length hp := None])"
      and tk: "take (length bs) data = map Some bs"
      and cap: "length data = ?B * 2 ^ k'"
      and above: "length bs - length bs mod ?B < length data"
      and lt: "length bs < length data"
      and tight: "k' = 0 \<or> length data \<le> 2 * (length bs - length bs mod ?B)"
      by blast
    from above cap have "?B * ?n < ?B * 2 ^ k'" by (simp only: full_chunks)
    then have n: "?n < 2 ^ k'" by simp
    from tight cap have "k' = 0 \<or> ?B * 2 ^ k' \<le> ?B * (2 * ?n)"
      by (simp only: full_chunks mult.left_commute)
    then have "k' = 0 \<or> (2::nat) ^ k' \<le> 2 * ?n" using block_size_pos by simp
    with n have "doublings ?n = k'" by (rule doublings_unique)
    with cap have exact: "length data = ?B * 2 ^ doublings ?n" by simp
    have bound: "length data \<le> max ?B (2 * length bs)"
    proof (cases "k' = 0")
      case True
      with cap show ?thesis by simp
    next
      case False
      with tight have "length data \<le> 2 * (length bs - length bs mod ?B)" by simp
      then show ?thesis by simp
    qed
    from res blk others before tk exact lt bound run
    have "\<exists>ptr data hp'. hvsc_read_file fs pth dest0 e hp =
                  Some (word_of_nat (length bs), Some ptr, e, hp')
                \<and> heap_block hp' ptr = Some data
                \<and> live_blocks (hp'[ptr := None]) = live_blocks hp
                \<and> take (length bs) data = map Some bs
                \<and> length data = ?B * 2 ^ doublings ?n
                \<and> length bs < length data
                \<and> length data \<le> max ?B (2 * length bs)"
      by (intro exI [of _ ptr] exI [of _ data] exI [of _ hp']) simp
    with False show ?thesis by (simp only: if_False)
  qed
qed

lemma doublings_0: "doublings 0 = 0"
  by (simp add: doublings.simps)

lemma doublings_1: "doublings (Suc 0) = Suc 0"
  by (simp add: doublings.simps)

text \<open>
  Claim C7. \<open>hvsc_read_file\<close> on a path that cannot be opened returns \<open>-1\<close> with the
  I/O error and leaves \<open>*dest\<close> and the heap alone. On a stream whose device fails, it
  returns \<open>-1\<close> with the I/O error, stores \<open>NULL\<close> in \<open>*dest\<close>, and the live blocks of
  the heap are those from before the call: what it allocated, it has released. On a
  stream that delivers the bytes \<open>bs\<close> and then ends, whatever their number, it returns
  that number and leaves the error state alone; \<open>*dest\<close> is the address of a live block
  that starts with exactly those bytes, and no other block of the call is left. The
  capacity of that block is the chunk size doubled once for each of the chunk counts
  1, 2, 4, ... that the full chunks of the file reach. So a file of 65536 bytes gives 65536 in a
  block of 131072 bytes, and an empty file gives 0 with a block of 65536 bytes, not a
  failure.
\<close>

theorem read_file_loads_whole_file:
  "(fopen fs pth = None \<longrightarrow>
      hvsc_read_file fs pth dest0 e hp = Some (- 1, dest0, HVSC_ERR_IO, hp))
   \<and> (fopen fs pth = Some (new_stream bs True) \<longrightarrow>
      (\<exists>hp'. hvsc_read_file fs pth dest0 e hp = Some (- 1, None, HVSC_ERR_IO, hp')
          \<and> live_blocks hp' = live_blocks hp))
   \<and> (fopen fs pth = Some (new_stream bs False) \<longrightarrow>
      (\<exists>ptr data hp'.
          hvsc_read_file fs pth dest0 e hp = Some (word_of_nat (length bs), Some ptr, e, hp')
          \<and> heap_block hp' ptr = Some data
          \<and> live_blocks (hp'[ptr := None]) = live_blocks hp
          \<and> take (length bs) data = map Some bs
          \<and> length data
              = READFILE_BLOCK_SIZE * 2 ^ doublings (length bs div READFILE_BLOCK_SIZE)
          \<and> length bs < length data
          \<and> length data \<le> max READFILE_BLOCK_SIZE (2 * length bs)))
   \<and> (length bs < 2 ^ 63 \<longrightarrow> sint (word_of_nat (length bs) :: long) = int (length bs))"
proof (intro conjI impI)
  assume "fopen fs pth = None"
  then show "hvsc_read_file fs pth dest0 e hp = Some (- 1, dest0, HVSC_ERR_IO, hp)"
    by (simp add: hvsc_read_file_def)
next
  assume "fopen fs pth = Some (new_stream bs True)"
  from read_file_of_stream [OF this, of dest0 e hp]
  show "\<exists>hp'. hvsc_read_file fs pth dest0 e hp = Some (- 1, None, HVSC_ERR_IO, hp')
          \<and> live_blocks hp' = live_blocks hp"
    by (simp only: if_True)
next
  assume "fopen fs pth = Some (new_stream bs False)"
  from read_file_of_stream [OF this, of dest0 e hp]
  show "\<exists>ptr data hp'.
          hvsc_read_file fs pth dest0 e hp = Some (word_of_nat (length bs), Some ptr, e, hp')
          \<and> heap_block hp' ptr = Some data
          \<and> live_blocks (hp'[ptr := None]) = live_blocks hp
          \<and> take (length bs) data = map Some bs
          \<and> length data
              = READFILE_BLOCK_SIZE * 2 ^ doublings (length bs div READFILE_BLOCK_SIZE)
          \<and> length bs < length data
          \<and> length data \<le> max READFILE_BLOCK_SIZE (2 * length bs)"
    by (simp only: if_False)
next
  assume "length bs < 2 ^ 63"
  then show "sint (word_of_nat (length bs) :: long) = int (length bs)"
    by (rule sint_long_of_nat)
qed

text \<open>A file of exactly 64 KiB, an empty file, a failing device and a missing file, each
  read with nothing on the heap.\<close>

theorem read_file_loads_whole_file_witness:
  "(\<exists>ptr data hp'.
        hvsc_read_file (single_file ''f'' (replicate 65536 CHR ''a'')) ''f'' None HVSC_ERR_OK []
          = Some (65536, Some ptr, HVSC_ERR_OK, hp')
      \<and> heap_block hp' ptr = Some data
      \<and> live_blocks (hp'[ptr := None]) = []
      \<and> take 65536 data = replicate 65536 (Some CHR ''a'')
      \<and> length data = 131072)
   \<and> sint (65536 :: long) = 65536
   \<and> (\<exists>ptr data hp'.
        hvsc_read_file (single_file ''f'' []) ''f'' None HVSC_ERR_OK []
          = Some (0, Some ptr, HVSC_ERR_OK, hp')
      \<and> heap_block hp' ptr = Some data \<and> length data = 65536
      \<and> live_blocks (hp'[ptr := None]) = [])
   \<and> (\<exists>hp'. hvsc_read_file (\<lambda>pth. Some (new_stream ''abc'' True)) ''f'' None HVSC_ERR_OK []
          = Some (- 1, None, HVSC_ERR_IO, hp')
      \<and> live_blocks hp' = [])
   \<and> hvsc_read_file (single_file ''f'' ''abc'') ''g'' None HVSC_ERR_OK []
        = Some (- 1, None, HVSC_ERR_IO, [])"
  using read_file_loads_whole_file
      [of "single_file ''f'' (replicate 65536 CHR ''a'')" "''f''" None HVSC_ERR_OK "[]"
        "replicate 65536 CHR ''a''"]
    read_file_loads_whole_file [of "single_file ''f'' []" "''f''" None HVSC_ERR_OK "[]" "[]"]
    read_file_loads_whole_file
      [of "\<lambda>pth. Some (new_stream ''abc'' True)" "''f''" None HVSC_ERR_OK "[]" "''abc''"]
    read_file_loads_whole_file
      [of "single_file ''f'' ''abc''" "''g''" None HVSC_ERR_OK "[]" "[]"]
  by (auto simp add: fopen_def single_file_def READFILE_BLOCK_SIZE_def doublings_0 doublings_1
      live_blocks_def)

end
